theory Spec2Isabelle
  imports Main "HOL-Library.List_Lexorder" "HOL-Library.Char_ord"
begin

section \<open>Python values used by app.py\<close>

text \<open>
  A Python \<open>str\<close> is a \<^typ>\<open>string\<close>: a list of characters, each standing for one code
  point (the code points below 256 are the ones a \<^typ>\<open>char\<close> can hold). Strings are
  ordered as Python orders them, lexicographically by code point.

  A Python \<open>dict\<close> keeps its keys in insertion order, and the loops of
  \<open>highlight_diff\<close> depend on that order, so a dict is an association list whose keys
  are distinct: \<open>d[k] = v\<close> replaces the value of an existing key in place and appends a
  new key at the end.
\<close>

datatype error = KeyError | IndexError | ValueError | OSError | UnicodeDecodeError

type_synonym ('k, 'v) dict = "('k \<times> 'v) list"

fun dict_setitem :: "'k \<Rightarrow> 'v \<Rightarrow> ('k, 'v) dict \<Rightarrow> ('k, 'v) dict" where
  "dict_setitem k v [] = [(k, v)]"
| "dict_setitem k v ((k', v') # d) =
     (if k' = k then (k', v) # d else (k', v') # dict_setitem k v d)"

definition dict_getitem :: "('k, 'v) dict \<Rightarrow> 'k \<Rightarrow> error + 'v" where
  "dict_getitem d k = (case map_of d k of None \<Rightarrow> Inl KeyError | Some v \<Rightarrow> Inr v)"

definition dict_get :: "('k, 'v) dict \<Rightarrow> 'k \<Rightarrow> 'v \<Rightarrow> 'v" where
  "dict_get d k dflt = (case map_of d k of None \<Rightarrow> dflt | Some v \<Rightarrow> v)"

definition dict_keys :: "('k, 'v) dict \<Rightarrow> 'k list" where
  "dict_keys d = map fst d"

definition dict_values :: "('k, 'v) dict \<Rightarrow> 'v list" where
  "dict_values d = map snd d"

definition list_getitem :: "'a list \<Rightarrow> nat \<Rightarrow> error + 'a" where
  "list_getitem xs i = (if i < length xs then Inr (xs ! i) else Inl IndexError)"

definition startswith :: "string \<Rightarrow> string \<Rightarrow> bool" where
  "startswith s p = (take (length p) s = p)"

fun join :: "string \<Rightarrow> string list \<Rightarrow> string" where
  "join sep [] = []"
| "join sep [x] = x"
| "join sep (x # y # xs) = x @ sep @ join sep (y # xs)"

text \<open>
  \<open>str.splitlines()\<close>: a line ends at a line boundary (\<open>\n\<close>, \<open>\r\<close>, \<open>\r\n\<close>, \<open>\v\<close>, \<open>\f\<close>,
  \<open>\x1c\<close>, \<open>\x1d\<close>, \<open>\x1e\<close>, \<open>\x85\<close>), the boundary is dropped, and the text after the last
  boundary is a line only when it is not empty.
\<close>

definition is_linebreak :: "char \<Rightarrow> bool" where
  "is_linebreak c = (c \<in> {CHR 0x0A, CHR 0x0B, CHR 0x0C, CHR 0x0D, CHR 0x1C, CHR 0x1D,
     CHR 0x1E, CHR 0x85})"

fun splitlines_from :: "string \<Rightarrow> string \<Rightarrow> string list" where
  "splitlines_from cur [] = (if cur = [] then [] else [cur])"
| "splitlines_from cur [c] = (if is_linebreak c then [cur] else [cur @ [c]])"
| "splitlines_from cur (c # c' # cs) =
     (if c = CHR 0x0D \<and> c' = CHR 0x0A then cur # splitlines_from [] cs
      else if is_linebreak c then cur # splitlines_from [] (c' # cs)
      else splitlines_from (cur @ [c]) (c' # cs))"

definition splitlines :: "string \<Rightarrow> string list" where
  "splitlines s = splitlines_from [] s"

section \<open>The diff engine\<close>

text \<open>
  \<open>difflib.Differ().compare(lines1, lines2)\<close> belongs to the Python standard library, not
  to the repository, so the functions below take it as the parameter \<open>differ\<close>. It
  returns a list of lines, each starting with a two-character code: two blanks for a line
  common to both inputs, \<open>- \<close> for a line of the first input only, \<open>+ \<close> for a line of
  the second input only, and \<open>? \<close> for a hint line that is in neither.

  What the library documents of that list is that each input can be restored from it
  (\<open>difflib.restore(delta, which)\<close>, with \<open>which\<close> 1 or 2): the lines coded blank or
  \<open>- \<close>, with the code removed, are the first input, and those coded blank or \<open>+ \<close>
  are the second.
\<close>

type_synonym differ = "string list \<Rightarrow> string list \<Rightarrow> string list"

definition restore :: "string list \<Rightarrow> int \<Rightarrow> error + string list" where
  "restore delta which =
     (if which = 1 \<or> which = 2 then
        Inr (map (drop 2)
               (filter (\<lambda>line. take 2 line = ''  ''
                          \<or> take 2 line = (if which = 1 then ''- '' else ''+ ''))
                  delta))
      else Inl ValueError)"

definition differ_restores :: "differ \<Rightarrow> bool" where
  "differ_restores differ =
     (\<forall>a b. restore (differ a b) 1 = Inr a \<and> restore (differ a b) 2 = Inr b)"

definition differ_same :: "differ \<Rightarrow> bool" where
  "differ_same differ = (\<forall>a. differ a a = map (\<lambda>line. ''  '' @ line) a)"

text \<open>
  Modelled from the spec: the Diff Engine of section 4.1, a line-based comparison in the
  style of a longest common subsequence, deterministic, which yields only added or only
  deleted lines when one input is empty. It stands in for \<open>difflib.Differ\<close> wherever a
  concrete diff engine is needed.
\<close>

fun lcs_length :: "string list \<Rightarrow> string list \<Rightarrow> nat" where
  "lcs_length [] ys = 0"
| "lcs_length (x # xs) [] = 0"
| "lcs_length (x # xs) (y # ys) =
     (if x = y then Suc (lcs_length xs ys)
      else max (lcs_length xs (y # ys)) (lcs_length (x # xs) ys))"

fun diff_engine :: "string list \<Rightarrow> string list \<Rightarrow> string list" where
  "diff_engine [] ys = map (\<lambda>y. ''+ '' @ y) ys"
| "diff_engine (x # xs) [] = map (\<lambda>x. ''- '' @ x) (x # xs)"
| "diff_engine (x # xs) (y # ys) =
     (if x = y then (''  '' @ x) # diff_engine xs ys
      else if lcs_length (x # xs) ys \<le> lcs_length xs (y # ys)
        then (''- '' @ x) # diff_engine xs (y # ys)
        else (''+ '' @ y) # diff_engine (x # xs) ys)"

section \<open>highlight\_diff\<close>

definition span_unchanged :: "string \<Rightarrow> string" where
  \<open>span_unchanged text = ''<span class="unchanged">'' @ text @ ''</span>''\<close>

definition span_deleted :: "string \<Rightarrow> string" where
  \<open>span_deleted text =
     ''<span class="deleted" style="background-color: #ffeef0;">'' @ text @ ''</span>''\<close>

definition span_added :: "string \<Rightarrow> string" where
  \<open>span_added text =
     ''<span class="added" style="background-color: #e6ffed;">'' @ text @ ''</span>''\<close>

text \<open>The loop \<open>for line in diff\<close>, on the two lists it appends to.\<close>

fun highlight_lines :: "string list \<Rightarrow> string list \<Rightarrow> string list \<Rightarrow> string list \<times> string list" where
  "highlight_lines [] highlighted_1 highlighted_2 = (highlighted_1, highlighted_2)"
| "highlight_lines (line # diff) highlighted_1 highlighted_2 =
     (if startswith line ''  '' then
        highlight_lines diff (highlighted_1 @ [span_unchanged (drop 2 line)])
          (highlighted_2 @ [span_unchanged (drop 2 line)])
      else if startswith line ''- '' then
        highlight_lines diff (highlighted_1 @ [span_deleted (drop 2 line)]) highlighted_2
      else if startswith line ''+ '' then
        highlight_lines diff highlighted_1 (highlighted_2 @ [span_added (drop 2 line)])
      else highlight_lines diff highlighted_1 highlighted_2)"

text \<open>The body of the inner loop, for one pair \<open>v1, v2\<close>.\<close>

definition highlight_pair ::
  "differ \<Rightarrow> (string, string) dict \<Rightarrow> (string, string) dict \<Rightarrow> string \<Rightarrow> string
     \<Rightarrow> error + (string, string) dict" where
  "highlight_pair differ cmd_versions highlighted v1 v2 =
     (case dict_getitem cmd_versions v1 of Inl e \<Rightarrow> Inl e | Inr text1 \<Rightarrow>
      (case dict_getitem cmd_versions v2 of Inl e \<Rightarrow> Inl e | Inr text2 \<Rightarrow>
        (let lines1 = splitlines text1;
             lines2 = splitlines text2;
             diff = differ lines1 lines2;
             (highlighted_1, highlighted_2) = highlight_lines diff [] []
         in Inr (dict_setitem v2 (''<pre>'' @ join [CHR 0x0A] highlighted_2 @ ''</pre>'')
                  (dict_setitem v1 (''<pre>'' @ join [CHR 0x0A] highlighted_1 @ ''</pre>'')
                     highlighted)))))"

text \<open>\<open>for j in range(i + 1, len(versions))\<close>, over the values of \<open>j\<close> still to come.\<close>

fun highlight_inner ::
  "differ \<Rightarrow> (string, string) dict \<Rightarrow> string list \<Rightarrow> nat \<Rightarrow> nat list
     \<Rightarrow> (string, string) dict \<Rightarrow> error + (string, string) dict" where
  "highlight_inner differ cmd_versions versions i [] highlighted = Inr highlighted"
| "highlight_inner differ cmd_versions versions i (j # js) highlighted =
     (case list_getitem versions i of Inl e \<Rightarrow> Inl e | Inr v1 \<Rightarrow>
      (case list_getitem versions j of Inl e \<Rightarrow> Inl e | Inr v2 \<Rightarrow>
       (case highlight_pair differ cmd_versions highlighted v1 v2 of Inl e \<Rightarrow> Inl e
        | Inr highlighted' \<Rightarrow> highlight_inner differ cmd_versions versions i js highlighted')))"

text \<open>\<open>for i in range(len(versions))\<close>, over the values of \<open>i\<close> still to come.\<close>

fun highlight_outer ::
  "differ \<Rightarrow> (string, string) dict \<Rightarrow> string list \<Rightarrow> nat list
     \<Rightarrow> (string, string) dict \<Rightarrow> error + (string, string) dict" where
  "highlight_outer differ cmd_versions versions [] highlighted = Inr highlighted"
| "highlight_outer differ cmd_versions versions (i # is) highlighted =
     (case highlight_inner differ cmd_versions versions i [i + 1 ..< length versions] highlighted
      of Inl e \<Rightarrow> Inl e
       | Inr highlighted' \<Rightarrow> highlight_outer differ cmd_versions versions is highlighted')"

definition highlight_diff :: "differ \<Rightarrow> (string, string) dict \<Rightarrow> error + (string, string) dict" where
  "highlight_diff differ cmd_versions =
     (let versions = dict_keys cmd_versions
      in highlight_outer differ cmd_versions versions [0 ..< length versions] [])"

section \<open>compare\_versions\<close>

text \<open>
  \<open>get_help_files\<close> reads a directory of the file system; the comparison takes it as a
  parameter that returns the corpus of a version (a dict from command name to help text)
  or the error the reading raised.
\<close>

type_synonym corpus = "(string, string) dict"

type_synonym loader = "string \<Rightarrow> error + corpus"

text \<open>\<open>{version: get_help_files(version) for version in versions}\<close>\<close>

fun load_help_files :: "loader \<Rightarrow> string list \<Rightarrow> (string, corpus) dict \<Rightarrow> error + (string, corpus) dict" where
  "load_help_files get_help_files [] help_files = Inr help_files"
| "load_help_files get_help_files (version # versions) help_files =
     (case get_help_files version of Inl e \<Rightarrow> Inl e
      | Inr files \<Rightarrow> load_help_files get_help_files versions (dict_setitem version files help_files))"

text \<open>The loop that fills the set \<open>all_commands\<close>.\<close>

definition all_commands_of :: "(string, corpus) dict \<Rightarrow> string set" where
  "all_commands_of help_files =
     fold (\<lambda>files all_commands. all_commands \<union> set (dict_keys files)) (dict_values help_files) {}"

text \<open>\<open>{version: help_files[version].get(cmd, "") for version in versions}\<close>\<close>

fun cmd_versions_of ::
  "(string, corpus) dict \<Rightarrow> string \<Rightarrow> string list \<Rightarrow> (string, string) dict
     \<Rightarrow> error + (string, string) dict" where
  "cmd_versions_of help_files cmd [] cmd_versions = Inr cmd_versions"
| "cmd_versions_of help_files cmd (version # versions) cmd_versions =
     (case dict_getitem help_files version of Inl e \<Rightarrow> Inl e
      | Inr files \<Rightarrow>
          cmd_versions_of help_files cmd versions
            (dict_setitem version (dict_get files cmd []) cmd_versions))"

text \<open>
  \<open>any(cmd_versions[version] != cmd_versions[versions[0]] for version in versions[1:])\<close>,
  over the versions still to be tried; \<open>any\<close> stops at the first that differs.
\<close>

fun any_differs :: "(string, string) dict \<Rightarrow> string list \<Rightarrow> string list \<Rightarrow> error + bool" where
  "any_differs cmd_versions versions [] = Inr False"
| "any_differs cmd_versions versions (version # rest) =
     (case dict_getitem cmd_versions version of Inl e \<Rightarrow> Inl e | Inr text \<Rightarrow>
      (case list_getitem versions 0 of Inl e \<Rightarrow> Inl e | Inr version0 \<Rightarrow>
       (case dict_getitem cmd_versions version0 of Inl e \<Rightarrow> Inl e | Inr text0 \<Rightarrow>
          if text \<noteq> text0 then Inr True else any_differs cmd_versions versions rest)))"

text \<open>\<open>for cmd in sorted(all_commands)\<close>, over the commands still to come.\<close>

fun diffs_loop ::
  "differ \<Rightarrow> (string, corpus) dict \<Rightarrow> string list \<Rightarrow> string list
     \<Rightarrow> (string, (string, string) dict) dict \<Rightarrow> error + (string, (string, string) dict) dict" where
  "diffs_loop differ help_files versions [] diffs = Inr diffs"
| "diffs_loop differ help_files versions (cmd # cmds) diffs =
     (case cmd_versions_of help_files cmd versions [] of Inl e \<Rightarrow> Inl e | Inr cmd_versions \<Rightarrow>
      (case any_differs cmd_versions versions (drop 1 versions) of Inl e \<Rightarrow> Inl e
       | Inr differs \<Rightarrow>
          if differs then
            (case highlight_diff differ cmd_versions of Inl e \<Rightarrow> Inl e
             | Inr highlighted \<Rightarrow>
                 diffs_loop differ help_files versions cmds (dict_setitem cmd highlighted diffs))
          else diffs_loop differ help_files versions cmds diffs))"

definition compare_versions ::
  "differ \<Rightarrow> loader \<Rightarrow> string list \<Rightarrow> error + (string, (string, string) dict) dict" where
  "compare_versions differ get_help_files versions =
     (case load_help_files get_help_files versions [] of Inl e \<Rightarrow> Inl e
      | Inr help_files \<Rightarrow>
          diffs_loop differ help_files versions
            (sorted_list_of_set (all_commands_of help_files)) [])"

section \<open>The route compare\<close>

text \<open>
  The handler of \<open>POST /compare\<close>, on the list \<open>request.form.getlist("versions")\<close>. It
  answers with a plain body and a status, or with the template \<open>compare.html\<close> filled with
  the selected versions and the result of the comparison.
\<close>

datatype response =
    Plain string nat
  | Template string "string list" "(string, (string, string) dict) dict"

definition compare :: "differ \<Rightarrow> loader \<Rightarrow> string list \<Rightarrow> error + response" where
  "compare differ get_help_files selected_versions =
     (if length selected_versions < 2 then
        Inr (Plain ''Please select at least two versions for comparison.'' 400)
      else
        (case compare_versions differ get_help_files selected_versions of Inl e \<Rightarrow> Inl e
         | Inr diff_results \<Rightarrow> Inr (Template ''compare.html'' selected_versions diff_results)))"

section \<open>Notions used to state the properties\<close>

text \<open>The line classification of the data model, and the span that carries each.\<close>

datatype tag = Unchanged | Deleted | Added

fun span_of :: "tag \<Rightarrow> string \<Rightarrow> string" where
  "span_of Unchanged text = span_unchanged text"
| "span_of Deleted text = span_deleted text"
| "span_of Added text = span_added text"

text \<open>
  One classified line of a diff (the \<open>LineOp\<close> of the spec) and the coded line that
  \<open>difflib.Differ\<close> yields for it.
\<close>

datatype line_op = Equal string | OnlyLeft string | OnlyRight string

fun coded :: "line_op \<Rightarrow> string" where
  "coded (Equal text) = ''  '' @ text"
| "coded (OnlyLeft text) = ''- '' @ text"
| "coded (OnlyRight text) = ''+ '' @ text"

text \<open>
  What the Annotator of the spec appends to the left and to the right rendering for one
  classified line, written out as literal markup.
\<close>

fun annotate_left :: "line_op \<Rightarrow> string list" where
  \<open>annotate_left (Equal text) = [''<span class="unchanged">'' @ text @ ''</span>'']\<close>
| \<open>annotate_left (OnlyLeft text) =
     [''<span class="deleted" style="background-color: #ffeef0;">'' @ text @ ''</span>'']\<close>
| \<open>annotate_left (OnlyRight text) = []\<close>

fun annotate_right :: "line_op \<Rightarrow> string list" where
  \<open>annotate_right (Equal text) = [''<span class="unchanged">'' @ text @ ''</span>'']\<close>
| \<open>annotate_right (OnlyLeft text) = []\<close>
| \<open>annotate_right (OnlyRight text) =
     [''<span class="added" style="background-color: #e6ffed;">'' @ text @ ''</span>'']\<close>

text \<open>
  The two lists that \<open>highlight_lines\<close> builds from a diff, in closed form, and the block
  that wraps a joined list.
\<close>

definition left_lines :: "string list \<Rightarrow> string list" where
  "left_lines diff =
     map (\<lambda>line. if take 2 line = ''  '' then span_unchanged (drop 2 line)
                  else span_deleted (drop 2 line))
       (filter (\<lambda>line. take 2 line = ''  '' \<or> take 2 line = ''- '') diff)"

definition right_lines :: "string list \<Rightarrow> string list" where
  "right_lines diff =
     map (\<lambda>line. if take 2 line = ''  '' then span_unchanged (drop 2 line)
                  else span_added (drop 2 line))
       (filter (\<lambda>line. take 2 line = ''  '' \<or> take 2 line = ''+ '') diff)"

definition wrap_pre :: "string list \<Rightarrow> string" where
  "wrap_pre highlighted = ''<pre>'' @ join [CHR 0x0A] highlighted @ ''</pre>''"

text \<open>
  The two strings that the body of the inner loop computes for one pair of texts, before
  it stores them.
\<close>

definition render_pair :: "differ \<Rightarrow> string \<Rightarrow> string \<Rightarrow> string \<times> string" where
  "render_pair differ text1 text2 =
     (let lines1 = splitlines text1;
          lines2 = splitlines text2;
          diff = differ lines1 lines2;
          (highlighted_1, highlighted_2) = highlight_lines diff [] []
      in (''<pre>'' @ join [CHR 0x0A] highlighted_1 @ ''</pre>'',
          ''<pre>'' @ join [CHR 0x0A] highlighted_2 @ ''</pre>''))"

text \<open>
  The pairs of positions in the order the two nested loops visit them, and the effect of
  one visit on \<open>highlighted\<close>.
\<close>

definition index_pairs :: "nat \<Rightarrow> (nat \<times> nat) list" where
  "index_pairs n = concat (map (\<lambda>i. map (Pair i) [i + 1 ..< n]) [0 ..< n])"

definition put_pair ::
  "differ \<Rightarrow> (string, string) dict \<Rightarrow> (string, string) dict \<Rightarrow> nat \<times> nat
     \<Rightarrow> (string, string) dict" where
  "put_pair differ cmd_versions highlighted p =
     (let (v1, text1) = cmd_versions ! fst p;
          (v2, text2) = cmd_versions ! snd p;
          (r1, r2) = render_pair differ text1 text2
      in dict_setitem v2 r2 (dict_setitem v1 r1 highlighted))"

text \<open>The keys of a dict comprehension over a list: each element once, at its first position.\<close>

fun first_seen :: "'a list \<Rightarrow> 'a list \<Rightarrow> 'a list" where
  "first_seen seen [] = seen"
| "first_seen seen (x # xs) = first_seen (if x \<in> set seen then seen else seen @ [x]) xs"

text \<open>
  The text of a command in a version (empty when the corpus has no such command), the
  dict \<open>cmd_versions\<close> built for a command, whether a command differs from the first
  version somewhere, and the set of all commands.
\<close>

definition version_text :: "(string \<Rightarrow> corpus) \<Rightarrow> string \<Rightarrow> string \<Rightarrow> string" where
  "version_text corpora cmd version = dict_get (corpora version) cmd []"

definition cmd_versions_for :: "(string \<Rightarrow> corpus) \<Rightarrow> string list \<Rightarrow> string \<Rightarrow> (string, string) dict" where
  "cmd_versions_for corpora versions cmd =
     map (\<lambda>version. (version, version_text corpora cmd version)) (first_seen [] versions)"

definition entry_differs :: "(string \<Rightarrow> corpus) \<Rightarrow> string list \<Rightarrow> string \<Rightarrow> bool" where
  "entry_differs corpora versions cmd =
     (\<exists>version\<in>set versions. version_text corpora cmd version \<noteq> version_text corpora cmd (hd versions))"

definition commands_of :: "(string \<Rightarrow> corpus) \<Rightarrow> string list \<Rightarrow> string set" where
  "commands_of corpora versions = (\<Union>version\<in>set versions. set (dict_keys (corpora version)))"

text \<open>
  What \<open>highlight_diff\<close> returns for a dict with distinct keys, and the entry of \<open>diffs\<close> for
  one command.
\<close>

definition highlighted_for :: "differ \<Rightarrow> (string, string) dict \<Rightarrow> (string, string) dict" where
  "highlighted_for differ cmd_versions =
     foldl (put_pair differ cmd_versions) [] (index_pairs (length cmd_versions))"

definition diff_entry :: "differ \<Rightarrow> (string \<Rightarrow> corpus) \<Rightarrow> string list \<Rightarrow> string \<Rightarrow> string \<times> (string, string) dict" where
  "diff_entry differ corpora versions cmd =
     (cmd, highlighted_for differ (cmd_versions_for corpora versions cmd))"

text \<open>The corpus a loader returned for a version (the empty corpus if it raised).\<close>

definition loaded_corpus :: "loader \<Rightarrow> string \<Rightarrow> corpus" where
  "loaded_corpus get_help_files version =
     (case get_help_files version of Inl e \<Rightarrow> [] | Inr files \<Rightarrow> files)"

text \<open>\<open>str.endswith\<close>.\<close>

definition endswith :: "string \<Rightarrow> string \<Rightarrow> bool" where
  "endswith s p = (length p \<le> length s \<and> drop (length s - length p) s = p)"

text \<open>
  The rendering that the visit of one pair stores for the version at position \<open>k\<close>, and the
  order in which the pairs are visited: by first position, then by second.
\<close>

definition pair_rendering :: "differ \<Rightarrow> (string, string) dict \<Rightarrow> nat \<times> nat \<Rightarrow> nat \<Rightarrow> string" where
  "pair_rendering differ cmd_versions p k =
     (let (r1, r2) = render_pair differ (snd (cmd_versions ! fst p)) (snd (cmd_versions ! snd p))
      in if k = fst p then r1 else r2)"

definition pair_before :: "nat \<times> nat \<Rightarrow> nat \<times> nat \<Rightarrow> bool" where
  "pair_before p q = (fst p < fst q \<or> (fst p = fst q \<and> snd p < snd q))"

text \<open>
  The two corpora of the concrete scenario of the spec, as a loader and as a function,
  two corpora whose only entry differs by a trailing newline, and a dict of three versions.
\<close>

definition scenario_help_files :: loader where
  "scenario_help_files version =
     (if version = ''A'' then Inr [(''ABORT'', ''x'')]
      else if version = ''B'' then Inr [(''ABORT'', ''x''), (''ALTER'', ''y'')]
      else Inl OSError)"

definition scenario_corpora :: "string \<Rightarrow> corpus" where
  "scenario_corpora version =
     (if version = ''A'' then [(''ABORT'', ''x'')] else [(''ABORT'', ''x''), (''ALTER'', ''y'')])"

definition newline_help_files :: loader where
  "newline_help_files version =
     (if version = ''A'' then Inr [(''ABORT'', ''x'')]
      else if version = ''B'' then Inr [(''ABORT'', ''x'' @ [CHR 0x0A])]
      else Inl OSError)"

definition three_versions :: "(string, string) dict" where
  "three_versions = [(''postgres_10'', ''a''), (''postgres_11'', ''b''), (''postgres_12'', ''c'')]"

section \<open>Dicts, the loops of highlight\_diff and the stand-in diff engine\<close>

lemma map_of_dict_setitem: "map_of (dict_setitem k v d) = (map_of d)(k \<mapsto> v)"
  by (induction k v d rule: dict_setitem.induct) (auto simp: fun_eq_iff)

lemma dict_keys_setitem:
  "dict_keys (dict_setitem k v d) = (if k \<in> set (dict_keys d) then dict_keys d else dict_keys d @ [k])"
  by (induction k v d rule: dict_setitem.induct) (auto simp: dict_keys_def)

lemma dict_setitem_new: "k \<notin> set (dict_keys d) \<Longrightarrow> dict_setitem k v d = d @ [(k, v)]"
  by (induction k v d rule: dict_setitem.induct) (auto simp: dict_keys_def)

lemma dict_values_setitem: "set (dict_values (dict_setitem k v d)) \<subseteq> insert v (set (dict_values d))"
  by (induction k v d rule: dict_setitem.induct) (auto simp: dict_values_def)

lemma startswith_codes:
  "startswith s ''  '' = (take 2 s = ''  '')"
  "startswith s ''- '' = (take 2 s = ''- '')"
  "startswith s ''+ '' = (take 2 s = ''+ '')"
  by (simp_all add: startswith_def numeral_2_eq_2)

lemma highlight_lines_eq:
  "highlight_lines diff h1 h2 = (h1 @ left_lines diff, h2 @ right_lines diff)"
  by (induction diff arbitrary: h1 h2) (auto simp: left_lines_def right_lines_def startswith_codes)

lemma render_pair_eq:
  "render_pair differ text1 text2 =
     (wrap_pre (left_lines (differ (splitlines text1) (splitlines text2))),
      wrap_pre (right_lines (differ (splitlines text1) (splitlines text2))))"
  by (simp add: render_pair_def highlight_lines_eq wrap_pre_def Let_def)

lemma dict_getitem_nth:
  "distinct (dict_keys d) \<Longrightarrow> i < length d \<Longrightarrow> dict_getitem d (fst (d ! i)) = Inr (snd (d ! i))"
proof -
  assume d: "distinct (dict_keys d)" and i: "i < length d"
  have "(fst (d ! i), snd (d ! i)) \<in> set d" using i by simp
  then have "map_of d (fst (d ! i)) = Some (snd (d ! i))"
    using d by (intro map_of_is_SomeI) (simp_all add: dict_keys_def)
  then show ?thesis by (simp add: dict_getitem_def)
qed

lemma highlight_pair_nth:
  assumes "distinct (dict_keys cv)" "i < length cv" "j < length cv"
  shows "highlight_pair differ cv h (fst (cv ! i)) (fst (cv ! j)) = Inr (put_pair differ cv h (i, j))"
  using assms
  by (simp add: highlight_pair_def dict_getitem_nth put_pair_def render_pair_eq
      highlight_lines_eq wrap_pre_def split_beta Let_def)

lemma highlight_inner_eq:
  assumes "distinct (dict_keys cv)" "i < length cv" "\<forall>j\<in>set js. j < length cv"
  shows "highlight_inner differ cv (dict_keys cv) i js h
           = Inr (foldl (put_pair differ cv) h (map (Pair i) js))"
  using assms
  by (induction js arbitrary: h)
     (simp_all add: list_getitem_def dict_keys_def highlight_pair_nth)

lemma highlight_outer_eq:
  assumes "distinct (dict_keys cv)" "\<forall>i\<in>set is. i < length cv"
  shows "highlight_outer differ cv (dict_keys cv) is h
           = Inr (foldl (put_pair differ cv) h
                    (concat (map (\<lambda>i. map (Pair i) [i + 1 ..< length cv]) is)))"
  using assms
proof (induction "is" arbitrary: h)
  case Nil
  then show ?case by simp
next
  case (Cons i "is")
  have len: "length (dict_keys cv) = length cv" by (simp add: dict_keys_def)
  have "highlight_inner differ cv (dict_keys cv) i [i + 1 ..< length cv] h
          = Inr (foldl (put_pair differ cv) h (map (Pair i) [i + 1 ..< length cv]))"
    using Cons.prems by (intro highlight_inner_eq) auto
  then show ?case using Cons by (simp add: len)
qed

lemma highlight_diff_eq:
  assumes "distinct (dict_keys cv)"
  shows "highlight_diff differ cv = Inr (foldl (put_pair differ cv) [] (index_pairs (length cv)))"
proof -
  have len: "length (dict_keys cv) = length cv" by (simp add: dict_keys_def)
  show ?thesis
    using highlight_outer_eq [OF assms, of "[0 ..< length cv]" differ "[]"]
    by (simp add: highlight_diff_def index_pairs_def len)
qed

lemma left_lines_tags:
  assumes "restore diff 1 = Inr a"
  shows "\<exists>tags. length tags = length a \<and> set tags \<subseteq> {Unchanged, Deleted}
           \<and> left_lines diff = map2 span_of tags a"
proof -
  let ?keep = "filter (\<lambda>line. take 2 line = ''  '' \<or> take 2 line = ''- '') diff"
  let ?tags = "map (\<lambda>line. if take 2 line = ''  '' then Unchanged else Deleted) ?keep"
  have a: "a = map (drop 2) ?keep" using assms by (simp add: restore_def)
  have "left_lines diff = map2 span_of ?tags a"
    unfolding left_lines_def a by (induction diff) auto
  moreover have "length ?tags = length a" by (simp add: a)
  moreover have "set ?tags \<subseteq> {Unchanged, Deleted}" by auto
  ultimately show ?thesis by blast
qed

lemma right_lines_tags:
  assumes "restore diff 2 = Inr b"
  shows "\<exists>tags. length tags = length b \<and> set tags \<subseteq> {Unchanged, Added}
           \<and> right_lines diff = map2 span_of tags b"
proof -
  let ?keep = "filter (\<lambda>line. take 2 line = ''  '' \<or> take 2 line = ''+ '') diff"
  let ?tags = "map (\<lambda>line. if take 2 line = ''  '' then Unchanged else Added) ?keep"
  have b: "b = map (drop 2) ?keep" using assms by (simp add: restore_def)
  have "right_lines diff = map2 span_of ?tags b"
    unfolding right_lines_def b by (induction diff) auto
  moreover have "length ?tags = length b" by (simp add: b)
  moreover have "set ?tags \<subseteq> {Unchanged, Added}" by auto
  ultimately show ?thesis by blast
qed

lemma index_pairs_2: "index_pairs 2 = [(0, 1)]"
  by (simp add: index_pairs_def numeral_2_eq_2)

lemma highlight_diff_two:
  assumes "v1 \<noteq> v2"
  shows "highlight_diff differ [(v1, text1), (v2, text2)] =
           Inr [(v1, fst (render_pair differ text1 text2)), (v2, snd (render_pair differ text1 text2))]"
proof -
  have "distinct (dict_keys [(v1, text1), (v2, text2)])"
    using assms by (simp add: dict_keys_def)
  from highlight_diff_eq [OF this]
  have "highlight_diff differ [(v1, text1), (v2, text2)] =
          Inr (foldl (put_pair differ [(v1, text1), (v2, text2)]) [] (index_pairs 2))"
    by (simp add: numeral_2_eq_2)
  then show ?thesis
    using assms by (simp add: index_pairs_2 put_pair_def split_beta)
qed

lemma restore_map_deleted:
  "restore (map (\<lambda>x. ''- '' @ x) xs) 1 = Inr xs"
  "restore (map (\<lambda>x. ''- '' @ x) xs) 2 = Inr []"
  by (induction xs) (simp_all add: restore_def)

lemma restore_map_added:
  "restore (map (\<lambda>x. ''+ '' @ x) xs) 1 = Inr []"
  "restore (map (\<lambda>x. ''+ '' @ x) xs) 2 = Inr xs"
  by (induction xs) (simp_all add: restore_def)

lemma diff_engine_restore_left: "restore (diff_engine a b) 1 = Inr a"
proof (induction a b rule: diff_engine.induct)
  case (1 ys)
  show ?case by (simp add: restore_map_added)
next
  case (2 x xs)
  show ?case unfolding diff_engine.simps by (rule restore_map_deleted(1))
next
  case (3 x xs y ys)
  then show ?case by (simp add: restore_def)
qed

lemma diff_engine_restore_right: "restore (diff_engine a b) 2 = Inr b"
proof (induction a b rule: diff_engine.induct)
  case (1 ys)
  show ?case by (simp add: restore_map_added)
next
  case (2 x xs)
  show ?case unfolding diff_engine.simps by (rule restore_map_deleted(2))
next
  case (3 x xs y ys)
  then show ?case by (simp add: restore_def)
qed

lemma diff_engine_restores: "differ_restores diff_engine"
  by (simp add: differ_restores_def diff_engine_restore_left diff_engine_restore_right)

lemma diff_engine_same: "differ_same diff_engine"
proof -
  have "diff_engine a a = map (\<lambda>line. ''  '' @ line) a" for a
    by (induction a) simp_all
  then show ?thesis by (simp add: differ_same_def)
qed

section \<open>compare\_versions in closed form\<close>

lemma set_first_seen: "set (first_seen seen xs) = set seen \<union> set xs"
  by (induction xs arbitrary: seen) auto

lemma distinct_first_seen: "distinct seen \<Longrightarrow> distinct (first_seen seen xs)"
  by (induction xs arbitrary: seen) auto

lemma dict_setitem_keyed:
  "dict_setitem k (f k) (map (\<lambda>k. (k, f k)) ks) =
     map (\<lambda>k. (k, f k)) (if k \<in> set ks then ks else ks @ [k])"
  by (induction ks) auto

lemma dict_getitem_keyed:
  "k \<in> set ks \<Longrightarrow> dict_getitem (map (\<lambda>k. (k, f k)) ks) k = Inr (f k)"
  by (induction ks) (auto simp: dict_getitem_def)

lemma load_help_files_eq:
  assumes "\<forall>v\<in>set versions. get_help_files v = Inr (corpora v)"
  shows "load_help_files get_help_files versions (map (\<lambda>v. (v, corpora v)) seen)
           = Inr (map (\<lambda>v. (v, corpora v)) (first_seen seen versions))"
  using assms
proof (induction versions arbitrary: seen)
  case Nil
  show ?case by simp
next
  case (Cons v versions)
  then show ?case
    using dict_setitem_keyed [of v corpora seen] by simp
qed

lemma cmd_versions_of_eq:
  assumes "set versions \<subseteq> set loaded"
  shows "cmd_versions_of (map (\<lambda>v. (v, corpora v)) loaded) cmd versions
             (map (\<lambda>v. (v, version_text corpora cmd v)) seen)
           = Inr (map (\<lambda>v. (v, version_text corpora cmd v)) (first_seen seen versions))"
  using assms
proof (induction versions arbitrary: seen)
  case Nil
  show ?case by simp
next
  case (Cons v versions)
  then have "dict_getitem (map (\<lambda>v. (v, corpora v)) loaded) v = Inr (corpora v)"
    by (intro dict_getitem_keyed) simp
  then show ?case
    using Cons dict_setitem_keyed [of v "version_text corpora cmd" seen]
    by (simp add: version_text_def)
qed

lemma fold_union: "fold (\<lambda>x s. s \<union> f x) xs s0 = s0 \<union> (\<Union>x\<in>set xs. f x)"
  by (induction xs arbitrary: s0) auto

lemma all_commands_of_eq:
  "all_commands_of (map (\<lambda>v. (v, corpora v)) loaded) = commands_of corpora loaded"
  by (simp add: all_commands_of_def fold_union dict_values_def commands_of_def o_def)

lemma any_differs_eq:
  assumes "versions \<noteq> []" "hd versions \<in> set keys" "set rest \<subseteq> set keys"
  shows "any_differs (map (\<lambda>v. (v, f v)) keys) versions rest
           = Inr (\<exists>v\<in>set rest. f v \<noteq> f (hd versions))"
  using assms
proof (induction rest)
  case Nil
  show ?case by simp
next
  case (Cons v rest)
  have 0: "list_getitem versions 0 = Inr (hd versions)"
    using Cons.prems(1) by (cases versions) (simp_all add: list_getitem_def)
  have v: "dict_getitem (map (\<lambda>v. (v, f v)) keys) v = Inr (f v)"
    using Cons.prems by (intro dict_getitem_keyed) simp
  have h: "dict_getitem (map (\<lambda>v. (v, f v)) keys) (hd versions) = Inr (f (hd versions))"
    using Cons.prems by (intro dict_getitem_keyed) simp
  show ?case using Cons by (simp add: 0 v h)
qed

lemma any_differs_drop:
  "any_differs (cmd_versions_for corpora versions cmd) versions (drop 1 versions)
     = Inr (entry_differs corpora versions cmd)"
proof (cases versions)
  case Nil
  then show ?thesis by (simp add: entry_differs_def)
next
  case (Cons v rest)
  have "any_differs (cmd_versions_for corpora versions cmd) versions (drop 1 versions)
          = Inr (\<exists>u\<in>set (drop 1 versions).
                   version_text corpora cmd u \<noteq> version_text corpora cmd (hd versions))"
    unfolding cmd_versions_for_def
    using Cons by (intro any_differs_eq) (auto simp: set_first_seen)
  then show ?thesis using Cons by (auto simp: entry_differs_def)
qed

lemma distinct_cmd_versions_for: "distinct (dict_keys (cmd_versions_for corpora versions cmd))"
  by (simp add: cmd_versions_for_def dict_keys_def o_def distinct_first_seen)

lemma highlight_diff_for:
  "highlight_diff differ (cmd_versions_for corpora versions cmd)
     = Inr (highlighted_for differ (cmd_versions_for corpora versions cmd))"
  unfolding highlighted_for_def
  by (rule highlight_diff_eq) (rule distinct_cmd_versions_for)

lemma diffs_loop_eq:
  assumes "set versions \<subseteq> set loaded" "distinct cmds" "set cmds \<inter> set (dict_keys diffs) = {}"
  shows "diffs_loop differ (map (\<lambda>v. (v, corpora v)) loaded) versions cmds diffs
           = Inr (diffs @ map (diff_entry differ corpora versions)
                            (filter (entry_differs corpora versions) cmds))"
  using assms(2,3)
proof (induction cmds arbitrary: diffs)
  case Nil
  show ?case by simp
next
  case (Cons cmd cmds)
  have cv: "cmd_versions_of (map (\<lambda>v. (v, corpora v)) loaded) cmd versions []
              = Inr (cmd_versions_for corpora versions cmd)"
    using cmd_versions_of_eq [OF assms(1), of corpora cmd "[]"]
    by (simp add: cmd_versions_for_def)
  show ?case
  proof (cases "entry_differs corpora versions cmd")
    case True
    have new: "cmd \<notin> set (dict_keys diffs)" using Cons.prems by auto
    let ?diffs' = "diffs @ [diff_entry differ corpora versions cmd]"
    have "set cmds \<inter> set (dict_keys ?diffs') = {}"
      using Cons.prems by (auto simp: dict_keys_def diff_entry_def)
    with Cons.IH [of ?diffs'] Cons.prems(1)
    have "diffs_loop differ (map (\<lambda>v. (v, corpora v)) loaded) versions cmds ?diffs'
            = Inr (?diffs' @ map (diff_entry differ corpora versions)
                               (filter (entry_differs corpora versions) cmds))"
      by simp
    then show ?thesis
      using True
      by (simp add: cv any_differs_drop [unfolded One_nat_def] highlight_diff_for
          dict_setitem_new [OF new] diff_entry_def)
  next
    case False
    with Cons show ?thesis
      by (simp add: cv any_differs_drop [unfolded One_nat_def])
  qed
qed

lemma finite_commands_of: "finite (commands_of corpora versions)"
  by (simp add: commands_of_def)

lemma commands_of_cong: "set vs = set ws \<Longrightarrow> commands_of corpora vs = commands_of corpora ws"
  by (simp add: commands_of_def)

lemma compare_versions_eq:
  assumes "\<forall>v\<in>set versions. get_help_files v = Inr (corpora v)"
  shows "compare_versions differ get_help_files versions
           = Inr (map (diff_entry differ corpora versions)
                    (filter (entry_differs corpora versions)
                       (sorted_list_of_set (commands_of corpora versions))))"
proof -
  let ?loaded = "first_seen [] versions"
  have l: "load_help_files get_help_files versions [] = Inr (map (\<lambda>v. (v, corpora v)) ?loaded)"
    using load_help_files_eq [OF assms, of "[]"] by simp
  have s: "set versions \<subseteq> set ?loaded" by (simp add: set_first_seen)
  have c: "commands_of corpora ?loaded = commands_of corpora versions"
    by (rule commands_of_cong) (simp add: set_first_seen)
  have "diffs_loop differ (map (\<lambda>v. (v, corpora v)) ?loaded) versions
          (sorted_list_of_set (commands_of corpora versions)) []
        = Inr ([] @ map (diff_entry differ corpora versions)
                    (filter (entry_differs corpora versions)
                       (sorted_list_of_set (commands_of corpora versions))))"
    by (rule diffs_loop_eq [OF s]) (simp_all add: dict_keys_def)
  then show ?thesis
    by (simp add: compare_versions_def l all_commands_of_eq c)
qed

lemma in_Pair_image: "(i, j) \<in> Pair x ` A \<longleftrightarrow> x = i \<and> j \<in> A"
  by auto

lemma set_index_pairs: "set (index_pairs n) = {(i, j). i < j \<and> j < n}"
proof -
  have "(i, j) \<in> set (index_pairs n) \<longleftrightarrow> i < j \<and> j < n" for i j
    by (simp add: index_pairs_def in_Pair_image) arith
  then show ?thesis by auto
qed

lemma map_of_put_pair:
  "map_of (put_pair differ cv h p) =
     (map_of h)(fst (cv ! fst p) \<mapsto> pair_rendering differ cv p (fst p),
                fst (cv ! snd p) \<mapsto> snd (render_pair differ (snd (cv ! fst p)) (snd (cv ! snd p))))"
  by (simp add: put_pair_def pair_rendering_def split_beta map_of_dict_setitem)

lemma keys_put_pair:
  "set (dict_keys (put_pair differ cv h p)) =
     insert (fst (cv ! fst p)) (insert (fst (cv ! snd p)) (set (dict_keys h)))"
  by (auto simp: put_pair_def split_beta dict_keys_setitem)

lemma distinct_put_pair:
  "distinct (dict_keys h) \<Longrightarrow> distinct (dict_keys (put_pair differ cv h p))"
  by (simp add: put_pair_def split_beta dict_keys_setitem)

lemma values_put_pair:
  assumes "\<forall>s\<in>set (dict_values h). \<exists>hl. s = wrap_pre hl"
  shows "\<forall>s\<in>set (dict_values (put_pair differ cv h p)). \<exists>hl. s = wrap_pre hl"
proof
  fix s assume s: "s \<in> set (dict_values (put_pair differ cv h p))"
  obtain v1 text1 where c1: "cv ! fst p = (v1, text1)" by (cases "cv ! fst p")
  obtain v2 text2 where c2: "cv ! snd p = (v2, text2)" by (cases "cv ! snd p")
  let ?diff = "differ (splitlines text1) (splitlines text2)"
  have p: "put_pair differ cv h p =
             dict_setitem v2 (wrap_pre (right_lines ?diff)) (dict_setitem v1 (wrap_pre (left_lines ?diff)) h)"
    by (simp add: put_pair_def c1 c2 render_pair_eq Let_def)
  have "s = wrap_pre (right_lines ?diff) \<or> s \<in> set (dict_values (dict_setitem v1 (wrap_pre (left_lines ?diff)) h))"
    using s dict_values_setitem [of v2 "wrap_pre (right_lines ?diff)"] unfolding p by blast
  then have "s = wrap_pre (right_lines ?diff) \<or> s = wrap_pre (left_lines ?diff) \<or> s \<in> set (dict_values h)"
    using dict_values_setitem [of v1 "wrap_pre (left_lines ?diff)" h] by blast
  then show "\<exists>hl. s = wrap_pre hl"
    using assms by blast
qed

lemma keys_foldl_put_pair:
  "set (dict_keys (foldl (put_pair differ cv) h ps)) =
     set (dict_keys h) \<union> (\<Union>p\<in>set ps. {fst (cv ! fst p), fst (cv ! snd p)})"
  by (induction ps arbitrary: h) (auto simp: keys_put_pair)

lemma distinct_foldl_put_pair:
  "distinct (dict_keys h) \<Longrightarrow> distinct (dict_keys (foldl (put_pair differ cv) h ps))"
  by (induction ps arbitrary: h) (simp_all add: distinct_put_pair)

lemma values_foldl_put_pair:
  "\<forall>s\<in>set (dict_values h). \<exists>hl. s = wrap_pre hl \<Longrightarrow>
   \<forall>s\<in>set (dict_values (foldl (put_pair differ cv) h ps)). \<exists>hl. s = wrap_pre hl"
proof (induction ps arbitrary: h)
  case Nil
  then show ?case by simp
next
  case (Cons p ps)
  have "\<forall>s\<in>set (dict_values (put_pair differ cv h p)). \<exists>hl. s = wrap_pre hl"
    by (rule values_put_pair [OF Cons.prems])
  from Cons.IH [OF this] show ?case by simp
qed

lemma nth_keys_image: "(\<lambda>k. fst (cv ! k)) ` {..<length cv} = set (dict_keys cv)"
proof (rule set_eqI)
  fix x
  have "x \<in> set (map fst cv) \<longleftrightarrow> (\<exists>i<length (map fst cv). map fst cv ! i = x)"
    by (rule in_set_conv_nth)
  also have "\<dots> \<longleftrightarrow> (\<exists>i<length cv. fst (cv ! i) = x)"
    by auto
  finally show "x \<in> (\<lambda>k. fst (cv ! k)) ` {..<length cv} \<longleftrightarrow> x \<in> set (dict_keys cv)"
    by (auto simp: dict_keys_def simp del: set_map)
qed

lemma keys_highlighted_for:
  assumes "2 \<le> length cv"
  shows "set (dict_keys (highlighted_for differ cv)) = set (dict_keys cv)"
proof -
  let ?key = "\<lambda>k. fst (cv ! k)"
  let ?L = "\<Union>p\<in>set (index_pairs (length cv)). {?key (fst p), ?key (snd p)}"
  have "?L = ?key ` {..<length cv}"
  proof (rule set_eqI)
    fix x
    show "x \<in> ?L \<longleftrightarrow> x \<in> ?key ` {..<length cv}"
    proof
      assume "x \<in> ?L"
      then obtain i j where "i < j" "j < length cv" "x = ?key i \<or> x = ?key j"
        unfolding set_index_pairs by auto
      then show "x \<in> ?key ` {..<length cv}" by auto
    next
      assume "x \<in> ?key ` {..<length cv}"
      then obtain k where k: "k < length cv" "x = ?key k" by auto
      show "x \<in> ?L"
      proof (cases "k = 0")
        case True
        with assms have "(0, 1) \<in> set (index_pairs (length cv))" by (simp add: set_index_pairs)
        then show ?thesis using k True by (intro UN_I [of "(0, 1)"]) simp_all
      next
        case False
        with k have "(0, k) \<in> set (index_pairs (length cv))" by (simp add: set_index_pairs)
        then show ?thesis using k by (intro UN_I [of "(0, k)"]) simp_all
      qed
    qed
  qed
  then show ?thesis
    by (simp add: highlighted_for_def keys_foldl_put_pair nth_keys_image dict_keys_def [of "[]"])
qed

lemma startswith_wrap_pre: "startswith (wrap_pre hl) ''<pre>''"
  by (simp add: startswith_def wrap_pre_def)

lemma endswith_wrap_pre: "endswith (wrap_pre hl) ''</pre>''"
  by (simp add: endswith_def wrap_pre_def)

lemma key_eq_iff:
  assumes "distinct (dict_keys cv)" "i < length cv" "j < length cv"
  shows "fst (cv ! i) = fst (cv ! j) \<longleftrightarrow> i = j"
proof -
  have "map fst cv ! i = map fst cv ! j \<longleftrightarrow> i = j"
    using assms by (intro nth_eq_iff_index_eq) (simp_all add: dict_keys_def)
  then show ?thesis using assms by simp
qed

lemma map_of_foldl_put_pair:
  assumes "distinct (dict_keys cv)"
    and "\<forall>p\<in>set ps. fst p < snd p \<and> snd p < length cv"
    and "k < length cv"
  shows "map_of (foldl (put_pair differ cv) h ps) (fst (cv ! k)) =
           (if filter (\<lambda>p. fst p = k \<or> snd p = k) ps = [] then map_of h (fst (cv ! k))
            else Some (pair_rendering differ cv (last (filter (\<lambda>p. fst p = k \<or> snd p = k) ps)) k))"
  using assms(2)
proof (induction ps rule: rev_induct)
  case Nil
  show ?case by simp
next
  case (snoc p ps)
  then have p: "fst p < snd p" "snd p < length cv" "fst p < length cv" by auto
  have IH: "map_of (foldl (put_pair differ cv) h ps) (fst (cv ! k)) =
           (if filter (\<lambda>p. fst p = k \<or> snd p = k) ps = [] then map_of h (fst (cv ! k))
            else Some (pair_rendering differ cv (last (filter (\<lambda>p. fst p = k \<or> snd p = k) ps)) k))"
    using snoc by simp
  have e1: "fst (cv ! k) = fst (cv ! fst p) \<longleftrightarrow> k = fst p"
    by (rule key_eq_iff [OF assms(1) assms(3) p(3)])
  have e2: "fst (cv ! k) = fst (cv ! snd p) \<longleftrightarrow> k = snd p"
    by (rule key_eq_iff [OF assms(1) assms(3) p(2)])
  consider "k = snd p" | "k = fst p" "k \<noteq> snd p" | "k \<noteq> fst p" "k \<noteq> snd p" by blast
  then show ?case
  proof cases
    case 1
    with p(1) have "k \<noteq> fst p" by simp
    with 1 show ?thesis
      by (simp add: map_of_put_pair pair_rendering_def split_beta)
  next
    case 2
    then have "fst (cv ! k) \<noteq> fst (cv ! snd p)" using e2 by simp
    with 2 show ?thesis
      by (simp add: map_of_put_pair)
  next
    case 3
    then have "fst (cv ! k) \<noteq> fst (cv ! snd p)" "fst (cv ! k) \<noteq> fst (cv ! fst p)"
      using e1 e2 by simp_all
    moreover have "filter (\<lambda>p. fst p = k \<or> snd p = k) (ps @ [p]) = filter (\<lambda>p. fst p = k \<or> snd p = k) ps"
      using 3 by auto
    ultimately show ?thesis
      using IH by (simp add: map_of_put_pair del: filter_append)
  qed
qed

lemma sorted_rows:
  "sorted_wrt (<) is \<Longrightarrow>
   sorted_wrt pair_before (concat (map (\<lambda>i. map (Pair i) [i + 1 ..< n]) is))"
proof (induction "is")
  case Nil
  show ?case by simp
next
  case (Cons i "is")
  have row: "sorted_wrt pair_before (map (Pair i) [i + 1 ..< n])"
    by (simp add: sorted_wrt_map pair_before_def)
  have cross: "pair_before x y"
    if "x \<in> set (map (Pair i) [i + 1 ..< n])"
      and "y \<in> set (concat (map (\<lambda>i. map (Pair i) [i + 1 ..< n]) is))" for x y
  proof -
    from that(1) have "fst x = i" by auto
    moreover from that(2) have "fst y \<in> set is" by auto
    ultimately show ?thesis using Cons.prems by (auto simp: pair_before_def)
  qed
  from Cons row cross show ?case
    by (simp add: sorted_wrt_append del: set_map set_concat)
qed

lemma sorted_index_pairs: "sorted_wrt pair_before (index_pairs n)"
  unfolding index_pairs_def by (rule sorted_rows) simp

lemma last_sorted_greatest:
  assumes "sorted_wrt R ys" and "p \<in> set ys" and "\<forall>q\<in>set ys. q = p \<or> R q p"
    and "\<And>a b. R a b \<Longrightarrow> \<not> R b a"
  shows "last ys = p"
  using assms(1-3)
proof (induction ys)
  case Nil
  then show ?case by simp
next
  case (Cons y ys)
  show ?case
  proof (cases "ys = []")
    case True
    with Cons.prems show ?thesis by simp
  next
    case False
    have "p \<in> set ys"
    proof (rule ccontr)
      assume n: "p \<notin> set ys"
      with Cons.prems have py: "p = y" by simp
      from False obtain q where q: "q \<in> set ys" by (cases ys) auto
      with Cons.prems(1) have "R y q" by simp
      moreover from q n Cons.prems(3) have "R q p" by auto
      ultimately show False using assms(4) py by blast
    qed
    with Cons False show ?thesis by simp
  qed
qed

lemma last_pair_with:
  assumes "2 \<le> n" and "k < n"
  shows "last (filter (\<lambda>p. fst p = k \<or> snd p = k) (index_pairs n))
           = (if k < n - 1 then (k, n - 1) else (n - 2, n - 1))"
proof (rule last_sorted_greatest [where R = pair_before])
  show "sorted_wrt pair_before (filter (\<lambda>p. fst p = k \<or> snd p = k) (index_pairs n))"
    by (rule sorted_wrt_filter) (rule sorted_index_pairs)
  show "(if k < n - 1 then (k, n - 1) else (n - 2, n - 1))
          \<in> set (filter (\<lambda>p. fst p = k \<or> snd p = k) (index_pairs n))"
    using assms by (auto simp: set_index_pairs)
  show "\<forall>q\<in>set (filter (\<lambda>p. fst p = k \<or> snd p = k) (index_pairs n)).
          q = (if k < n - 1 then (k, n - 1) else (n - 2, n - 1))
          \<or> pair_before q (if k < n - 1 then (k, n - 1) else (n - 2, n - 1))"
    using assms by (auto simp: set_index_pairs pair_before_def)
  show "\<And>a b. pair_before a b \<Longrightarrow> \<not> pair_before b a"
    by (auto simp: pair_before_def)
qed

lemma keys_compare_versions:
  assumes "\<forall>v\<in>set versions. get_help_files v = Inr (corpora v)"
  shows "\<exists>diffs. compare_versions differ get_help_files versions = Inr diffs \<and>
           dict_keys diffs = filter (entry_differs corpora versions)
                               (sorted_list_of_set (commands_of corpora versions))"
  by (simp add: compare_versions_eq [OF assms] dict_keys_def o_def diff_entry_def)

lemma compare_versions_no_entry:
  assumes "\<forall>v\<in>set versions. get_help_files v = Inr (corpora v)"
    and "\<forall>v\<in>set versions. corpora v = corpora (hd versions)"
  shows "compare_versions differ get_help_files versions = Inr []"
proof -
  have "\<not> entry_differs corpora versions cmd" for cmd
    using assms(2) by (simp add: entry_differs_def version_text_def)
  then show ?thesis by (simp add: compare_versions_eq [OF assms(1)])
qed

lemma compare_versions_one_version:
  assumes "\<forall>v\<in>set versions. get_help_files v = Inr (corpora v)" and "card (set versions) < 2"
  shows "compare_versions differ get_help_files versions = Inr []"
proof (rule compare_versions_no_entry [OF assms(1)])
  show "\<forall>v\<in>set versions. corpora v = corpora (hd versions)"
  proof
    fix v assume v: "v \<in> set versions"
    then have "versions \<noteq> []" by auto
    then have h: "hd versions \<in> set versions" by simp
    have "v = hd versions"
    proof (rule ccontr)
      assume "v \<noteq> hd versions"
      then have "card {v, hd versions} = 2" by simp
      moreover have "card {v, hd versions} \<le> card (set versions)"
        using v h by (intro card_mono) auto
      ultimately show False using assms(2) by simp
    qed
    then show "corpora v = corpora (hd versions)" by simp
  qed
qed

lemma compare_too_few:
  "length selected_versions < 2 \<Longrightarrow>
   compare differ get_help_files selected_versions =
     Inr (Plain ''Please select at least two versions for comparison.'' 400)"
  by (simp add: compare_def)

lemma entry_differs_two_keys:
  assumes "entry_differs corpora versions cmd"
  shows "2 \<le> length (cmd_versions_for corpora versions cmd)"
proof -
  from assms obtain v where v: "v \<in> set versions"
      "version_text corpora cmd v \<noteq> version_text corpora cmd (hd versions)"
    by (auto simp: entry_differs_def)
  then have "versions \<noteq> []" by auto
  then have "hd versions \<in> set versions" by simp
  moreover from v(2) have "v \<noteq> hd versions" by auto
  ultimately have "card {v, hd versions} = 2" "{v, hd versions} \<subseteq> set (first_seen [] versions)"
    using v(1) by (simp_all add: set_first_seen)
  then have "2 \<le> card (set (first_seen [] versions))"
    by (metis card_mono List.finite_set)
  also have "\<dots> \<le> length (first_seen [] versions)" by (rule card_length)
  finally show ?thesis by (simp add: cmd_versions_for_def)
qed

lemma keys_cmd_versions_for: "set (dict_keys (cmd_versions_for corpora versions cmd)) = set versions"
  by (simp add: cmd_versions_for_def dict_keys_def o_def set_first_seen)

lemma rendered_highlighted_for:
  assumes "(version, rendered) \<in> set (highlighted_for differ cv)"
  shows "startswith rendered ''<pre>'' \<and> endswith rendered ''</pre>''"
proof -
  have "\<forall>s\<in>set (dict_values (highlighted_for differ cv)). \<exists>hl. s = wrap_pre hl"
    unfolding highlighted_for_def
    by (rule values_foldl_put_pair) (simp add: dict_values_def)
  moreover have "rendered \<in> set (dict_values (highlighted_for differ cv))"
    using assms by (force simp: dict_values_def)
  ultimately obtain hl where "rendered = wrap_pre hl" by blast
  then show ?thesis by (simp add: startswith_wrap_pre endswith_wrap_pre)
qed

lemma pair_with_exists:
  assumes "2 \<le> n" and "k < n"
  shows "filter (\<lambda>p. fst p = k \<or> snd p = k) (index_pairs n) \<noteq> []"
proof -
  have "(if k < n - 1 then (k, n - 1) else (n - 2, n - 1))
          \<in> set (filter (\<lambda>p. fst p = k \<or> snd p = k) (index_pairs n))"
    using assms by (auto simp: set_index_pairs)
  then show ?thesis by (metis empty_iff empty_set)
qed

lemma scenario_loads:
  "\<forall>version\<in>set [''A'', ''B'']. scenario_help_files version = Inr (scenario_corpora version)"
  by (simp add: scenario_help_files_def scenario_corpora_def)

lemma scenario_loads_one:
  "\<forall>version\<in>set [''A'']. scenario_help_files version = Inr (scenario_corpora version)"
  by (simp add: scenario_help_files_def scenario_corpora_def)

lemma only_added_lines:
  "restore diff 1 = Inr [] \<Longrightarrow> restore diff 2 = Inr b \<Longrightarrow>
   left_lines diff = [] \<and> right_lines diff = map span_added b"
  by (induction diff arbitrary: b)
     (auto simp: restore_def left_lines_def right_lines_def split: if_splits)

lemma splitlines_empty: "splitlines [] = []"
  by (simp add: splitlines_def)

lemma highlighted_for_two:
  assumes "a \<noteq> b"
  shows "highlighted_for differ [(a, text1), (b, text2)] =
           [(a, fst (render_pair differ text1 text2)), (b, snd (render_pair differ text1 text2))]"
  using assms
  by (simp add: highlighted_for_def index_pairs_2 [unfolded numeral_2_eq_2] put_pair_def split_beta)

lemma render_pair_left_empty:
  assumes "differ_restores differ"
  shows "render_pair differ [] text2 =
           (''<pre></pre>'', wrap_pre (map span_added (splitlines text2)))"
proof -
  let ?diff = "differ [] (splitlines text2)"
  from assms have r: "restore ?diff 1 = Inr []" "restore ?diff 2 = Inr (splitlines text2)"
    by (simp_all add: differ_restores_def)
  from only_added_lines [OF r] show ?thesis
    by (simp add: render_pair_eq splitlines_empty wrap_pre_def)
qed

lemma filter_sorted_list_insert:
  assumes "finite S" and "\<not> P x"
  shows "filter P (sorted_list_of_set (insert x S)) = filter P (sorted_list_of_set S)"
proof (cases "x \<in> S")
  case True
  then show ?thesis by (simp add: insert_absorb)
next
  case False
  with assms show ?thesis by (simp add: filter_insort_triv)
qed

lemma dict_get_setitem:
  "dict_get (dict_setitem k v d) k' dflt = (if k' = k then v else dict_get d k' dflt)"
  by (simp add: dict_get_def map_of_dict_setitem)

lemma dict_get_absent: "k \<notin> set (dict_keys d) \<Longrightarrow> dict_get d k dflt = dflt"
  by (simp add: dict_get_def dict_keys_def map_of_eq_None_iff [THEN iffD2])

lemma compare_versions_absent_is_empty:
  assumes loads: "\<forall>u\<in>set versions. get_help_files u = Inr (corpora u)"
    and absent: "cmd \<notin> set (dict_keys (corpora version))"
  shows "compare_versions differ
           (get_help_files(version := Inr (dict_setitem cmd [] (corpora version)))) versions
         = compare_versions differ get_help_files versions"
proof -
  let ?corpora' = "corpora(version := dict_setitem cmd [] (corpora version))"
  let ?g' = "get_help_files(version := Inr (dict_setitem cmd [] (corpora version)))"
  have loads': "\<forall>u\<in>set versions. ?g' u = Inr (?corpora' u)"
    using loads by simp
  have vt: "version_text ?corpora' c u = version_text corpora c u" for c u
    using absent by (simp add: version_text_def dict_get_setitem dict_get_absent)
  have cv: "cmd_versions_for ?corpora' versions = cmd_versions_for corpora versions"
    by (simp add: cmd_versions_for_def vt fun_eq_iff)
  have ed: "entry_differs ?corpora' versions = entry_differs corpora versions"
    by (simp add: entry_differs_def vt fun_eq_iff)
  have de: "diff_entry differ ?corpora' versions = diff_entry differ corpora versions"
    by (simp add: diff_entry_def cv fun_eq_iff)
  have f: "filter (entry_differs corpora versions) (sorted_list_of_set (commands_of ?corpora' versions))
      = filter (entry_differs corpora versions) (sorted_list_of_set (commands_of corpora versions))"
  proof (cases "version \<in> set versions")
    case False
    then have "?corpora' u = corpora u" if "u \<in> set versions" for u
      using that by auto
    then have "commands_of ?corpora' versions = commands_of corpora versions"
      unfolding commands_of_def by (intro SUP_cong) simp_all
    then show ?thesis by simp
  next
    case True
    have "commands_of ?corpora' versions = insert cmd (commands_of corpora versions)"
      using True absent by (auto simp: commands_of_def dict_keys_setitem split: if_splits)
    moreover have "cmd \<in> commands_of corpora versions \<or> \<not> entry_differs corpora versions cmd"
    proof (cases "cmd \<in> commands_of corpora versions")
      case True
      then show ?thesis by simp
    next
      case False
      then have "version_text corpora cmd u = []" if "u \<in> set versions" for u
        using that by (auto simp: commands_of_def version_text_def dict_get_absent)
      moreover have "hd versions \<in> set versions" using True by (cases versions) auto
      ultimately have "\<not> entry_differs corpora versions cmd"
        by (simp add: entry_differs_def)
      then show ?thesis by simp
    qed
    ultimately show ?thesis
      using filter_sorted_list_insert [OF finite_commands_of, of "entry_differs corpora versions" cmd corpora versions]
      by (auto simp: insert_absorb)
  qed
  have "compare_versions differ ?g' versions
          = Inr (map (diff_entry differ ?corpora' versions)
                   (filter (entry_differs ?corpora' versions)
                      (sorted_list_of_set (commands_of ?corpora' versions))))"
    by (rule compare_versions_eq [OF loads'])
  also have "\<dots> = Inr (map (diff_entry differ corpora versions)
                   (filter (entry_differs corpora versions)
                      (sorted_list_of_set (commands_of corpora versions))))"
    by (simp only: ed de f)
  also have "\<dots> = compare_versions differ get_help_files versions"
    by (rule compare_versions_eq [OF loads, symmetric])
  finally show ?thesis .
qed

lemma scenario_commands:
  "sorted_list_of_set (commands_of scenario_corpora [''A'', ''B'']) = [''ABORT'', ''ALTER'']"
proof -
  have "commands_of scenario_corpora [''A'', ''B''] = set [''ABORT'', ''ALTER'']"
    by (auto simp: commands_of_def scenario_corpora_def dict_keys_def)
  moreover have "sorted_list_of_set (set [''ABORT'', ''ALTER'']) = [''ABORT'', ''ALTER'']"
    by (simp add: sorted_list_of_set_sort_remdups less_eq_char_def less_char_def)
  ultimately show ?thesis by simp
qed

lemma scenario_differs:
  "\<not> entry_differs scenario_corpora [''A'', ''B''] ''ABORT''"
  "entry_differs scenario_corpora [''A'', ''B''] ''ALTER''"
  by (simp_all add: entry_differs_def version_text_def scenario_corpora_def dict_get_def)

lemma scenario_cmd_versions:
  "cmd_versions_for scenario_corpora [''A'', ''B''] ''ALTER'' = [(''A'', []), (''B'', ''y'')]"
  by (simp add: cmd_versions_for_def version_text_def scenario_corpora_def dict_get_def)

lemma splitlines_y: "splitlines ''y'' = [''y'']"
  by (simp add: splitlines_def is_linebreak_def)

lemma scenario_result:
  assumes "differ_restores differ"
    and "get_help_files ''A'' = Inr [(''ABORT'', ''x'')]"
    and "get_help_files ''B'' = Inr [(''ABORT'', ''x''), (''ALTER'', ''y'')]"
  shows \<open>compare_versions differ get_help_files [''A'', ''B''] =
           Inr [(''ALTER'',
                 [(''A'', ''<pre></pre>''),
                  (''B'', ''<pre><span class="added" style="background-color: #e6ffed;">y</span></pre>'')])]\<close>
proof -
  have loads: "\<forall>v\<in>set [''A'', ''B'']. get_help_files v = Inr (scenario_corpora v)"
    using assms(2,3) by (simp add: scenario_corpora_def)
  have ne: "''A'' \<noteq> ''B''" by simp
  show ?thesis
    unfolding compare_versions_eq [OF loads] scenario_commands
    by (simp add: scenario_differs diff_entry_def scenario_cmd_versions
        highlighted_for_two [OF ne] render_pair_left_empty [OF assms(1)] splitlines_y
        wrap_pre_def span_added_def)
qed

lemma left_lines_same: "left_lines (map (\<lambda>line. ''  '' @ line) xs) = map span_unchanged xs"
  by (induction xs) (simp_all add: left_lines_def)

lemma right_lines_same: "right_lines (map (\<lambda>line. ''  '' @ line) xs) = map span_unchanged xs"
  by (induction xs) (simp_all add: right_lines_def)

lemma render_pair_same_lines:
  assumes "differ_same differ" and "splitlines text1 = splitlines text2"
  shows "render_pair differ text1 text2 =
           (wrap_pre (map span_unchanged (splitlines text1)),
            wrap_pre (map span_unchanged (splitlines text2)))"
proof -
  from assms(1)
  have d: "differ (splitlines text2) (splitlines text2)
             = map (\<lambda>line. ''  '' @ line) (splitlines text2)"
    unfolding differ_same_def by blast
  show ?thesis
    unfolding render_pair_eq assms(2) d Let_def left_lines_same right_lines_same
    by (rule refl)
qed

lemma map_of_keyed: "k \<in> set ks \<Longrightarrow> map_of (map (\<lambda>k. (k, f k)) ks) k = Some (f k)"
  by (induction ks) auto

section \<open>The properties of the specification\<close>

text \<open>
  C1. For two versions of an entry, the pair of renderings that \<open>highlight_diff\<close> returns
  accounts for every line of both texts exactly once: the left rendering is the lines of
  the left text, in their order, each in one span tagged unchanged or deleted, and the
  right rendering is the lines of the right text, in their order, each in one span tagged
  unchanged or added. The diff engine is any function from whose output both inputs can
  be restored, as \<open>difflib\<close> documents of \<open>Differ.compare\<close>.
\<close>

theorem highlight_diff_every_line_once:
  assumes "differ_restores differ" and "v1 \<noteq> v2"
  shows "\<exists>tags1 tags2.
           length tags1 = length (splitlines text1) \<and> set tags1 \<subseteq> {Unchanged, Deleted} \<and>
           length tags2 = length (splitlines text2) \<and> set tags2 \<subseteq> {Unchanged, Added} \<and>
           highlight_diff differ [(v1, text1), (v2, text2)] =
             Inr [(v1, ''<pre>'' @ join [CHR 0x0A] (map2 span_of tags1 (splitlines text1)) @ ''</pre>''),
                  (v2, ''<pre>'' @ join [CHR 0x0A] (map2 span_of tags2 (splitlines text2)) @ ''</pre>'')]"
proof -
  let ?diff = "differ (splitlines text1) (splitlines text2)"
  from assms(1)
  have r: "restore ?diff 1 = Inr (splitlines text1)" "restore ?diff 2 = Inr (splitlines text2)"
    by (simp_all add: differ_restores_def)
  from left_lines_tags [OF r(1)] obtain tags1 where
    t1: "length tags1 = length (splitlines text1)" "set tags1 \<subseteq> {Unchanged, Deleted}"
        "left_lines ?diff = map2 span_of tags1 (splitlines text1)" by blast
  from right_lines_tags [OF r(2)] obtain tags2 where
    t2: "length tags2 = length (splitlines text2)" "set tags2 \<subseteq> {Unchanged, Added}"
        "right_lines ?diff = map2 span_of tags2 (splitlines text2)" by blast
  have "highlight_diff differ [(v1, text1), (v2, text2)] =
          Inr [(v1, ''<pre>'' @ join [CHR 0x0A] (map2 span_of tags1 (splitlines text1)) @ ''</pre>''),
               (v2, ''<pre>'' @ join [CHR 0x0A] (map2 span_of tags2 (splitlines text2)) @ ''</pre>'')]"
    using t1(3) t2(3) by (simp add: highlight_diff_two [OF assms(2)] render_pair_eq wrap_pre_def Let_def)
  with t1(1,2) t2(1,2) show ?thesis by blast
qed

theorem highlight_diff_every_line_once_witness:
  "differ_restores diff_engine \<and> ''A'' \<noteq> ''B'' \<and>
   (\<exists>tags1 tags2.
      length tags1 = length (splitlines (''line1'' @ [CHR 0x0A] @ ''line2'')) \<and>
      set tags1 \<subseteq> {Unchanged, Deleted} \<and>
      length tags2 = length (splitlines (''line1'' @ [CHR 0x0A] @ ''line2x'')) \<and>
      set tags2 \<subseteq> {Unchanged, Added} \<and>
      highlight_diff diff_engine
        [(''A'', ''line1'' @ [CHR 0x0A] @ ''line2''), (''B'', ''line1'' @ [CHR 0x0A] @ ''line2x'')] =
        Inr [(''A'', ''<pre>'' @ join [CHR 0x0A]
                (map2 span_of tags1 (splitlines (''line1'' @ [CHR 0x0A] @ ''line2''))) @ ''</pre>''),
             (''B'', ''<pre>'' @ join [CHR 0x0A]
                (map2 span_of tags2 (splitlines (''line1'' @ [CHR 0x0A] @ ''line2x''))) @ ''</pre>'')])"
proof -
  have ne: "''A'' \<noteq> ''B''" by simp
  show ?thesis
    using diff_engine_restores ne
      highlight_diff_every_line_once [OF diff_engine_restores ne,
        of "''line1'' @ [CHR 0x0A] @ ''line2''" "''line1'' @ [CHR 0x0A] @ ''line2x''"]
    by blast
qed

text \<open>
  C2. For a list of at least two versions whose corpora load and a command in the union of
  the corpora's keys, the command is a key of the result of \<open>compare_versions\<close> if and only
  if the text of some version for it (the empty string when the corpus has no such
  command) differs from the text of the first version. A command whose text is the same
  in every version is therefore not in the result.
\<close>

theorem compare_versions_includes_iff_differs:
  assumes "2 \<le> length versions"
    and "\<forall>version\<in>set versions. get_help_files version = Inr (corpora version)"
    and "cmd \<in> (\<Union>version\<in>set versions. set (dict_keys (corpora version)))"
  shows "\<exists>diffs. compare_versions differ get_help_files versions = Inr diffs \<and>
           (cmd \<in> set (dict_keys diffs) \<longleftrightarrow>
              (\<exists>version\<in>set versions.
                 dict_get (corpora version) cmd [] \<noteq> dict_get (corpora (hd versions)) cmd []))"
proof -
  from keys_compare_versions [OF assms(2)] obtain diffs where
    d: "compare_versions differ get_help_files versions = Inr diffs"
       "dict_keys diffs = filter (entry_differs corpora versions)
                               (sorted_list_of_set (commands_of corpora versions))"
    by blast
  have "cmd \<in> commands_of corpora versions" using assms(3) by (simp add: commands_of_def)
  then have "cmd \<in> set (dict_keys diffs) \<longleftrightarrow> entry_differs corpora versions cmd"
    by (simp add: d(2) finite_commands_of)
  with d(1) show ?thesis by (simp add: entry_differs_def version_text_def)
qed

theorem compare_versions_includes_iff_differs_witness:
  "\<exists>diffs. compare_versions diff_engine scenario_help_files [''A'', ''B''] = Inr diffs \<and>
           ''ALTER'' \<in> set (dict_keys diffs) \<and> ''ABORT'' \<notin> set (dict_keys diffs)"
proof -
  have len: "2 \<le> length [''A'', ''B'']" by simp
  have alter: "''ALTER'' \<in> (\<Union>version\<in>set [''A'', ''B'']. set (dict_keys (scenario_corpora version)))"
    and abort: "''ABORT'' \<in> (\<Union>version\<in>set [''A'', ''B'']. set (dict_keys (scenario_corpora version)))"
    by (simp_all add: scenario_corpora_def dict_keys_def)
  show ?thesis
    using compare_versions_includes_iff_differs [OF len scenario_loads alter, of diff_engine]
      compare_versions_includes_iff_differs [OF len scenario_loads abort, of diff_engine]
    by (auto simp: scenario_corpora_def dict_get_def)
qed

text \<open>
  C3, as the code has it. For a list with fewer than two distinct versions whose corpora
  load, \<open>compare_versions\<close> itself raises nothing and returns the empty dict. The request
  is rejected by the route \<open>compare\<close>: for fewer than two selected versions it answers with
  status 400 and the message, whatever the loader would do. The claim as written, that
  \<open>compare_versions\<close> returns an error, fails for the single version \<open>A\<close> of the scenario.
\<close>

theorem compare_versions_too_few_versions:
  assumes "\<forall>version\<in>set versions. get_help_files version = Inr (corpora version)"
    and "card (set versions) < 2"
  shows "compare_versions differ get_help_files versions = Inr [] \<and>
         (length versions < 2 \<longrightarrow>
            compare differ any_help_files versions =
              Inr (Plain ''Please select at least two versions for comparison.'' 400))"
  using compare_versions_one_version [OF assms] compare_too_few by blast

theorem compare_versions_too_few_versions_witness:
  "compare_versions diff_engine scenario_help_files [''A''] = Inr [] \<and>
   compare diff_engine scenario_help_files [''A''] =
     Inr (Plain ''Please select at least two versions for comparison.'' 400)"
proof -
  have c: "card (set [''A'']) < 2" by simp
  show ?thesis
    using compare_versions_too_few_versions [OF scenario_loads_one c, of diff_engine scenario_help_files]
    by simp
qed

theorem single_version_result_counterexample:
  "compare_versions diff_engine scenario_help_files [''A''] = Inr []"
proof -
  have c: "card (set [''A'']) < 2" by simp
  show ?thesis by (rule compare_versions_one_version [OF scenario_loads_one c])
qed

text \<open>
  C4. For a dict of more than two versions, the pairs of positions are visited by first
  position and then by second, every pair \<open>i < j\<close> once, and the string that
  \<open>highlight_diff\<close> returns for the version at position \<open>k\<close> is the one computed by the
  last visited pair that contains \<open>k\<close>.
\<close>

theorem highlight_diff_last_pair_wins:
  assumes "distinct (dict_keys cmd_versions)"
    and "2 < length cmd_versions"
    and "k < length cmd_versions"
  shows "sorted_wrt pair_before (index_pairs (length cmd_versions)) \<and>
         set (index_pairs (length cmd_versions)) = {(i, j). i < j \<and> j < length cmd_versions} \<and>
         (\<exists>highlighted.
            highlight_diff differ cmd_versions = Inr highlighted \<and>
            map_of highlighted (dict_keys cmd_versions ! k) =
              Some (pair_rendering differ cmd_versions
                      (last (filter (\<lambda>p. fst p = k \<or> snd p = k)
                               (index_pairs (length cmd_versions)))) k))"
proof -
  let ?n = "length cmd_versions"
  have key: "dict_keys cmd_versions ! k = fst (cmd_versions ! k)"
    using assms(3) by (simp add: dict_keys_def)
  have ps: "\<forall>p\<in>set (index_pairs ?n). fst p < snd p \<and> snd p < ?n"
    by (auto simp: set_index_pairs)
  have ne: "filter (\<lambda>p. fst p = k \<or> snd p = k) (index_pairs ?n) \<noteq> []"
    using assms(2,3) by (intro pair_with_exists) simp_all
  have "map_of (foldl (put_pair differ cmd_versions) [] (index_pairs ?n)) (fst (cmd_versions ! k)) =
          Some (pair_rendering differ cmd_versions
                  (last (filter (\<lambda>p. fst p = k \<or> snd p = k) (index_pairs ?n))) k)"
    using map_of_foldl_put_pair [OF assms(1) ps assms(3), of differ "[]"] ne by simp
  then show ?thesis
    by (simp add: highlight_diff_eq [OF assms(1)] key sorted_index_pairs set_index_pairs)
qed

theorem highlight_diff_last_pair_wins_witness:
  \<open>\<exists>highlighted.
     highlight_diff diff_engine three_versions = Inr highlighted \<and>
     map_of highlighted ''postgres_10'' =
       Some ''<pre><span class="deleted" style="background-color: #ffeef0;">a</span></pre>'' \<and>
     map_of highlighted ''postgres_12'' =
       Some ''<pre><span class="added" style="background-color: #e6ffed;">c</span></pre>''\<close>
proof -
  have d: "distinct (dict_keys three_versions)" by (simp add: three_versions_def dict_keys_def)
  have l: "2 < length three_versions" by (simp add: three_versions_def)
  have k0: "0 < length three_versions" and k2: "2 < length three_versions"
    by (simp_all add: three_versions_def)
  have p0: "last (filter (\<lambda>p. fst p = 0 \<or> snd p = 0) (index_pairs (length three_versions))) = (0, 2)"
    using last_pair_with [of "length three_versions" 0] by (simp add: three_versions_def)
  have p2: "last (filter (\<lambda>p. fst p = 2 \<or> snd p = 2) (index_pairs (length three_versions))) = (1, 2)"
    using last_pair_with [of "length three_versions" 2] by (simp add: three_versions_def)
  have r0: \<open>fst (render_pair diff_engine ''a'' ''c'') =
              ''<pre><span class="deleted" style="background-color: #ffeef0;">a</span></pre>''\<close>
    and r2: \<open>snd (render_pair diff_engine ''b'' ''c'') =
              ''<pre><span class="added" style="background-color: #e6ffed;">c</span></pre>''\<close>
    by (simp_all add: render_pair_eq splitlines_def is_linebreak_def left_lines_def
        right_lines_def wrap_pre_def span_deleted_def span_added_def)
  show ?thesis
    using highlight_diff_last_pair_wins [OF d l k0, of diff_engine]
      highlight_diff_last_pair_wins [OF d l k2, of diff_engine]
    unfolding p0 p2
    by (auto simp: pair_rendering_def three_versions_def dict_keys_def split_beta r0 [simplified] r2 [simplified])
qed

text \<open>
  C5. For every sequence of classified lines, the loop over the diff appends an unchanged
  span to both sides for an equal line, a deleted span to the left side only and an added
  span to the right side only. The text of the line is carried as it is, the deleted and
  the added span carry a background colour, and the unchanged span carries no style.
\<close>

theorem highlight_lines_annotates:
  "highlight_lines (map coded ops) highlighted_1 highlighted_2 =
     (highlighted_1 @ concat (map annotate_left ops), highlighted_2 @ concat (map annotate_right ops))"
proof (induction ops arbitrary: highlighted_1 highlighted_2)
  case Nil
  show ?case by simp
next
  case (Cons op ops)
  show ?case
    by (cases op)
       (simp_all add: Cons.IH startswith_codes span_unchanged_def span_deleted_def span_added_def)
qed

text \<open>
  C6, as the code has it. A command that a version's corpus does not have is compared as
  the empty string: storing the empty string under that command in the corpus changes
  nothing of the result. For the corpora \<open>A = {ABORT: x}\<close> and \<open>B = {ABORT: x, ALTER: y}\<close>
  the result is exactly the entry \<open>ALTER\<close>, where \<open>B\<close> is \<open>y\<close> as one added line and
  \<open>A\<close> is the empty block \<open><pre></pre>\<close>, and not the empty string of the claim as
  written. The diff engine is any function from whose output both inputs can be restored.
\<close>

theorem compare_versions_absent_entry:
  assumes "differ_restores differ"
    and "get_help_files ''A'' = Inr [(''ABORT'', ''x'')]"
    and "get_help_files ''B'' = Inr [(''ABORT'', ''x''), (''ALTER'', ''y'')]"
    and "\<forall>version\<in>set versions. any_help_files version = Inr (corpora version)"
    and "cmd \<notin> set (dict_keys (corpora absent_version))"
  shows \<open>compare_versions differ get_help_files [''A'', ''B''] =
           Inr [(''ALTER'',
                 [(''A'', ''<pre></pre>''),
                  (''B'', ''<pre><span class="added" style="background-color: #e6ffed;">y</span></pre>'')])]
         \<and> compare_versions any_differ
             (any_help_files(absent_version := Inr (dict_setitem cmd [] (corpora absent_version))))
             versions
           = compare_versions any_differ any_help_files versions\<close>
  using scenario_result [OF assms(1-3)] compare_versions_absent_is_empty [OF assms(4,5)]
  by simp

theorem compare_versions_absent_entry_witness:
  \<open>compare_versions diff_engine scenario_help_files [''A'', ''B''] =
           Inr [(''ALTER'',
                 [(''A'', ''<pre></pre>''),
                  (''B'', ''<pre><span class="added" style="background-color: #e6ffed;">y</span></pre>'')])]
         \<and> compare_versions diff_engine
             (scenario_help_files(''A'' := Inr (dict_setitem ''ALTER'' [] (scenario_corpora ''A''))))
             [''A'', ''B'']
           = compare_versions diff_engine scenario_help_files [''A'', ''B'']\<close>
proof -
  have a: "scenario_help_files ''A'' = Inr [(''ABORT'', ''x'')]"
    and b: "scenario_help_files ''B'' = Inr [(''ABORT'', ''x''), (''ALTER'', ''y'')]"
    by (simp_all add: scenario_help_files_def)
  have absent: "''ALTER'' \<notin> set (dict_keys (scenario_corpora ''A''))"
    by (simp add: scenario_corpora_def dict_keys_def)
  show ?thesis
    by (rule compare_versions_absent_entry [OF diff_engine_restores a b scenario_loads absent])
qed

theorem absent_entry_empty_string_counterexample:
  \<open>compare_versions diff_engine scenario_help_files [''A'', ''B''] \<noteq>
           Inr [(''ALTER'',
                 [(''A'', []),
                  (''B'', ''<pre><span class="added" style="background-color: #e6ffed;">y</span></pre>'')])]\<close>
proof -
  have a: "scenario_help_files ''A'' = Inr [(''ABORT'', ''x'')]"
    and b: "scenario_help_files ''B'' = Inr [(''ABORT'', ''x''), (''ALTER'', ''y'')]"
    by (simp_all add: scenario_help_files_def)
  show ?thesis
    unfolding scenario_result [OF diff_engine_restores a b] by simp
qed

text \<open>
  C7. For two versions whose corpora load, comparing them in either order gives results
  with the same set of commands.
\<close>

theorem compare_versions_reversed_same_keys:
  assumes "get_help_files a = Inr corpus_a" and "get_help_files b = Inr corpus_b"
  shows "\<exists>diffs_ab diffs_ba.
           compare_versions differ get_help_files [a, b] = Inr diffs_ab \<and>
           compare_versions differ get_help_files [b, a] = Inr diffs_ba \<and>
           set (dict_keys diffs_ab) = set (dict_keys diffs_ba)"
proof -
  let ?c = "loaded_corpus get_help_files"
  have ab: "\<forall>v\<in>set [a, b]. get_help_files v = Inr (?c v)"
    and ba: "\<forall>v\<in>set [b, a]. get_help_files v = Inr (?c v)"
    using assms by (auto simp: loaded_corpus_def)
  from keys_compare_versions [OF ab] obtain diffs_ab where
    1: "compare_versions differ get_help_files [a, b] = Inr diffs_ab"
       "dict_keys diffs_ab = filter (entry_differs ?c [a, b]) (sorted_list_of_set (commands_of ?c [a, b]))"
    by blast
  from keys_compare_versions [OF ba] obtain diffs_ba where
    2: "compare_versions differ get_help_files [b, a] = Inr diffs_ba"
       "dict_keys diffs_ba = filter (entry_differs ?c [b, a]) (sorted_list_of_set (commands_of ?c [b, a]))"
    by blast
  have "commands_of ?c [a, b] = commands_of ?c [b, a]"
    by (rule commands_of_cong) auto
  moreover have "entry_differs ?c [a, b] = entry_differs ?c [b, a]"
    by (auto simp: entry_differs_def fun_eq_iff)
  ultimately have "dict_keys diffs_ab = dict_keys diffs_ba" using 1(2) 2(2) by simp
  with 1(1) 2(1) show ?thesis by simp
qed

theorem compare_versions_reversed_same_keys_witness:
  "\<exists>diffs_ab diffs_ba.
     compare_versions diff_engine scenario_help_files [''A'', ''B''] = Inr diffs_ab \<and>
     compare_versions diff_engine scenario_help_files [''B'', ''A''] = Inr diffs_ba \<and>
     set (dict_keys diffs_ab) = set (dict_keys diffs_ba)"
proof -
  have a: "scenario_help_files ''A'' = Inr [(''ABORT'', ''x'')]"
    and b: "scenario_help_files ''B'' = Inr [(''ABORT'', ''x''), (''ALTER'', ''y'')]"
    by (simp_all add: scenario_help_files_def)
  show ?thesis by (rule compare_versions_reversed_same_keys [OF a b])
qed

text \<open>
  C8. Comparing two selected versions that have the same corpus (the same version twice,
  or two versions with equal corpora) gives a result with no entry.
\<close>

theorem compare_versions_same_corpus_empty:
  assumes "get_help_files a = Inr files" and "get_help_files b = Inr files"
  shows "compare_versions differ get_help_files [a, b] = Inr []"
proof -
  have "\<forall>v\<in>set [a, b]. get_help_files v = Inr ((\<lambda>v. files) v)" using assms by simp
  then show ?thesis by (rule compare_versions_no_entry) simp
qed

theorem compare_versions_same_corpus_empty_witness:
  "compare_versions diff_engine scenario_help_files [''B'', ''B''] = Inr []"
proof -
  have b: "scenario_help_files ''B'' = Inr [(''ABORT'', ''x''), (''ALTER'', ''y'')]"
    by (simp add: scenario_help_files_def)
  show ?thesis
    using compare_versions_same_corpus_empty
      [where get_help_files = scenario_help_files and a = "''B''" and b = "''B''", OF b b]
    by simp
qed

text \<open>
  C9. For a list of at least two versions whose corpora load, \<open>compare_versions\<close> returns
  a result, and every entry of it maps exactly the selected versions, each once, to a
  string that starts with \<open><pre>\<close> and ends with \<open></pre>\<close>.
\<close>

theorem compare_versions_covers_versions:
  assumes "2 \<le> length versions"
    and "\<forall>version\<in>set versions. get_help_files version = Inr (corpora version)"
  shows "\<exists>diffs. compare_versions differ get_help_files versions = Inr diffs \<and>
           (\<forall>(cmd, highlighted)\<in>set diffs.
              set (dict_keys highlighted) = set versions \<and> distinct (dict_keys highlighted) \<and>
              (\<forall>(version, rendered)\<in>set highlighted.
                 startswith rendered ''<pre>'' \<and> endswith rendered ''</pre>''))"
proof -
  let ?diffs = "map (diff_entry differ corpora versions)
                  (filter (entry_differs corpora versions)
                     (sorted_list_of_set (commands_of corpora versions)))"
  have "set (dict_keys highlighted) = set versions \<and> distinct (dict_keys highlighted) \<and>
          (\<forall>(version, rendered)\<in>set highlighted.
             startswith rendered ''<pre>'' \<and> endswith rendered ''</pre>'')"
    if "(cmd, highlighted) \<in> set ?diffs" for cmd highlighted
  proof -
    let ?cv = "cmd_versions_for corpora versions cmd"
    from that have h: "highlighted = highlighted_for differ ?cv"
      and d: "entry_differs corpora versions cmd"
      by (auto simp: diff_entry_def)
    have "set (dict_keys highlighted) = set versions"
      unfolding h using keys_highlighted_for [OF entry_differs_two_keys [OF d]]
      by (simp add: keys_cmd_versions_for)
    moreover have "distinct (dict_keys highlighted)"
      unfolding h highlighted_for_def
      by (rule distinct_foldl_put_pair) (simp add: dict_keys_def)
    moreover have "\<forall>(version, rendered)\<in>set highlighted.
             startswith rendered ''<pre>'' \<and> endswith rendered ''</pre>''"
      unfolding h using rendered_highlighted_for by blast
    ultimately show ?thesis by blast
  qed
  then show ?thesis
    unfolding compare_versions_eq [OF assms(2)] by blast
qed

theorem compare_versions_covers_versions_witness:
  "\<exists>diffs. compare_versions diff_engine scenario_help_files [''A'', ''B''] = Inr diffs \<and>
     (\<forall>(cmd, highlighted)\<in>set diffs.
        set (dict_keys highlighted) = set [''A'', ''B''] \<and> distinct (dict_keys highlighted) \<and>
        (\<forall>(version, rendered)\<in>set highlighted.
           startswith rendered ''<pre>'' \<and> endswith rendered ''</pre>''))"
proof -
  have len: "2 \<le> length [''A'', ''B'']" by simp
  show ?thesis by (rule compare_versions_covers_versions [OF len scenario_loads])
qed

text \<open>
  C10. When the texts of a command in two versions are unequal as strings but split into
  the same lines, the command is in the result and both renderings tag every line as
  unchanged. The texts \<open>x\<close> and \<open>x\<close> followed by a newline are such a pair. The diff
  engine is any function that, like \<open>difflib.Differ\<close>, codes every line as common when its
  two inputs are the same.
\<close>

theorem compare_versions_same_lines_all_unchanged:
  assumes "differ_same differ"
    and "get_help_files a = Inr corpus_a" and "get_help_files b = Inr corpus_b"
    and "dict_get corpus_a cmd [] \<noteq> dict_get corpus_b cmd []"
    and "splitlines (dict_get corpus_a cmd []) = splitlines (dict_get corpus_b cmd [])"
  shows "\<exists>diffs. compare_versions differ get_help_files [a, b] = Inr diffs \<and>
           map_of diffs cmd =
             Some [(a, ''<pre>'' @ join [CHR 0x0A]
                         (map span_unchanged (splitlines (dict_get corpus_a cmd []))) @ ''</pre>''),
                   (b, ''<pre>'' @ join [CHR 0x0A]
                         (map span_unchanged (splitlines (dict_get corpus_b cmd []))) @ ''</pre>'')]"
proof -
  let ?c = "loaded_corpus get_help_files"
  let ?t1 = "dict_get corpus_a cmd []" and ?t2 = "dict_get corpus_b cmd []"
  have ca: "?c a = corpus_a" and cb: "?c b = corpus_b"
    using assms(2,3) by (simp_all add: loaded_corpus_def)
  have ne: "a \<noteq> b" using assms(2-4) by auto
  have loads: "\<forall>v\<in>set [a, b]. get_help_files v = Inr (?c v)"
    using assms(2,3) by (simp add: loaded_corpus_def)
  have "cmd \<in> set (dict_keys corpus_a) \<or> cmd \<in> set (dict_keys corpus_b)"
  proof (rule ccontr)
    assume "\<not> (cmd \<in> set (dict_keys corpus_a) \<or> cmd \<in> set (dict_keys corpus_b))"
    then have "dict_get corpus_a cmd [] = []" "dict_get corpus_b cmd [] = []"
      by (simp_all add: dict_get_absent)
    with assms(4) show False by simp
  qed
  then have "cmd \<in> commands_of ?c [a, b]"
    by (auto simp: commands_of_def ca cb)
  moreover have "entry_differs ?c [a, b] cmd"
    using assms(4) by (auto simp: entry_differs_def version_text_def ca cb)
  ultimately have mem: "cmd \<in> set (filter (entry_differs ?c [a, b])
                                    (sorted_list_of_set (commands_of ?c [a, b])))"
    by (simp add: finite_commands_of)
  have cv: "cmd_versions_for ?c [a, b] cmd = [(a, ?t1), (b, ?t2)]"
    using ne by (simp add: cmd_versions_for_def version_text_def ca cb)
  have "map_of (map (diff_entry differ ?c [a, b])
                 (filter (entry_differs ?c [a, b]) (sorted_list_of_set (commands_of ?c [a, b])))) cmd
          = Some (highlighted_for differ (cmd_versions_for ?c [a, b] cmd))"
    unfolding diff_entry_def by (rule map_of_keyed [OF mem])
  also have "\<dots> = Some [(a, wrap_pre (map span_unchanged (splitlines ?t1))),
                         (b, wrap_pre (map span_unchanged (splitlines ?t2)))]"
    by (simp add: cv highlighted_for_two [OF ne] render_pair_same_lines [OF assms(1,5)])
  finally show ?thesis
    by (simp add: compare_versions_eq [OF loads] wrap_pre_def)
qed

theorem compare_versions_same_lines_all_unchanged_witness:
  \<open>''x'' \<noteq> ''x'' @ [CHR 0x0A] \<and> splitlines ''x'' = splitlines (''x'' @ [CHR 0x0A]) \<and>
   (\<exists>diffs. compare_versions diff_engine newline_help_files [''A'', ''B''] = Inr diffs \<and>
      map_of diffs ''ABORT'' =
        Some [(''A'', ''<pre><span class="unchanged">x</span></pre>''),
              (''B'', ''<pre><span class="unchanged">x</span></pre>'')])\<close>
proof -
  have a: "newline_help_files ''A'' = Inr [(''ABORT'', ''x'')]"
    and b: "newline_help_files ''B'' = Inr [(''ABORT'', ''x'' @ [CHR 0x0A])]"
    by (simp_all add: newline_help_files_def)
  have s1: "splitlines ''x'' = [''x'']" and s2: "splitlines (''x'' @ [CHR 0x0A]) = [''x'']"
    by (simp_all add: splitlines_def is_linebreak_def)
  have d: "dict_get [(''ABORT'', ''x'')] ''ABORT'' [] \<noteq> dict_get [(''ABORT'', ''x'' @ [CHR 0x0A])] ''ABORT'' []"
    by (simp add: dict_get_def)
  have l: "splitlines (dict_get [(''ABORT'', ''x'')] ''ABORT'' [])
             = splitlines (dict_get [(''ABORT'', ''x'' @ [CHR 0x0A])] ''ABORT'' [])"
    by (simp add: dict_get_def s1 s2 del: append.simps)
  show ?thesis
    using compare_versions_same_lines_all_unchanged [OF diff_engine_same a b d l]
    by (simp add: dict_get_def s1 s2 [simplified] span_unchanged_def)
qed

end
